theory Spec2Isabelle
  imports Main
begin

section \<open>Strings\<close>

text \<open>
  The search filter (\<^verbatim>\<open>src/sidebar/util/search-filter.js\<close>) works on JavaScript
  strings. A string is modelled as a \<^typ>\<open>string\<close>, one \<^typ>\<open>char\<close> per code unit, so
  the model covers the strings whose code units lie in 0..255. Indices are \<^typ>\<open>int\<close>,
  because \<^verbatim>\<open>indexOf\<close> answers -1 and \<^verbatim>\<open>slice\<close> accepts negative indices.
\<close>

abbreviation dq :: char where "dq \<equiv> CHR 0x22"
abbreviation sq :: char where "sq \<equiv> CHR 0x27"

text \<open>The class \<^verbatim>\<open>\s\<close> of a regular expression, among the code units 0..255: tab, line
  feed, vertical tab, form feed, carriage return, space and no-break space.\<close>

definition is_space :: "char \<Rightarrow> bool" where
  "is_space c \<longleftrightarrow> c \<in> set [CHR 0x09, CHR 0x0A, CHR 0x0B, CHR 0x0C, CHR 0x0D, CHR 0x20, CHR 0xA0]"

text \<open>The class \<^verbatim>\<open>\d\<close>: the ten ASCII digits, the code units 48..57.\<close>

definition is_digit :: "char \<Rightarrow> bool" where
  "is_digit c \<longleftrightarrow> 48 \<le> (of_char c :: nat) \<and> (of_char c :: nat) \<le> 57"

text \<open>\<^verbatim>\<open>s.indexOf(c)\<close> for a one-character search string: the index of the first
  occurrence, or -1.\<close>

definition indexOf :: "string \<Rightarrow> char \<Rightarrow> int" where
  "indexOf s c = (if c \<in> set s then int (length (takeWhile (\<lambda>x. x \<noteq> c) s)) else - 1)"

text \<open>How \<^verbatim>\<open>slice\<close> reads an index: a negative one counts from the end, and both
  kinds are clamped to the string.\<close>

definition clamp_index :: "nat \<Rightarrow> int \<Rightarrow> nat" where
  "clamp_index len i = (if i < 0 then nat (max (int len + i) 0) else min (nat i) len)"

text \<open>\<^verbatim>\<open>s.slice(start, fin)\<close> and \<^verbatim>\<open>s.slice(start)\<close>.\<close>

definition slice :: "string \<Rightarrow> int \<Rightarrow> int \<Rightarrow> string" where
  "slice s start fin =
     (let from = clamp_index (length s) start; to = clamp_index (length s) fin
      in take (to - from) (drop from s))"

definition slice_from :: "string \<Rightarrow> int \<Rightarrow> string" where
  "slice_from s start = drop (clamp_index (length s) start) s"

text \<open>\<^verbatim>\<open>toLowerCase\<close> on the code units 0..255: A-Z, and the capital letters of
  Latin-1 (0xC0..0xDE without the multiplication sign 0xD7), move up by 32.\<close>

definition lower_char :: "char \<Rightarrow> char" where
  "lower_char c =
     (let n = (of_char c :: nat)
      in if (65 \<le> n \<and> n \<le> 90) \<or> (192 \<le> n \<and> n \<le> 214) \<or> (216 \<le> n \<and> n \<le> 222)
         then char_of (n + 32) else c)"

definition toLowerCase :: "string \<Rightarrow> string" where
  "toLowerCase s = map lower_char s"

section \<open>splitTerm\<close>

text \<open>The field names that \<^verbatim>\<open>splitTerm\<close> recognises.\<close>

definition field_names :: "string list" where
  "field_names = [''group'', ''quote'', ''since'', ''tag'', ''text'', ''uri'', ''user'']"

text \<open>
  \<^verbatim>\<open>splitTerm(term)\<close> returns the pair \<^verbatim>\<open>[filter, data]\<close>; \<^verbatim>\<open>null\<close> is \<open>None\<close>.
  The prefix is cut with \<^verbatim>\<open>term.slice(0, term.indexOf(':'))\<close>, and the test
  \<^verbatim>\<open>!filter\<close> holds for the empty string.
\<close>

definition splitTerm :: "string \<Rightarrow> string option \<times> string" where
  "splitTerm t =
     (let fil = slice t 0 (indexOf t (CHR '':''))
      in if fil = [] then (None, t)
         else if fil \<in> set field_names then (Some fil, slice_from t (int (length fil) + 1))
         else (None, t))"

section \<open>removeSurroundingQuotes\<close>

definition removeSurroundingQuotes :: "string \<Rightarrow> string" where
  "removeSurroundingQuotes s =
     (let start = slice s 0 1; fin = slice_from s (- 1)
      in if (start = [dq] \<or> start = [sq]) \<and> start = fin
         then slice s 1 (int (length s) - 1) else s)"

section \<open>tokenize\<close>

text \<open>
  The regular expression of \<^verbatim>\<open>tokenize\<close> is
  \<^verbatim>\<open>/(?:[^\s"']+|"[^"]*"|'[^']*')+/g\<close>. One pass of its group is \<open>piece\<close>: the
  three alternatives in their order, each greedy. The alternatives start with different
  characters and nothing follows the group, so backtracking never changes the result.
  \<open>piece\<close> returns the text matched and the rest of the input.
\<close>

definition bare :: "char \<Rightarrow> bool" where
  "bare c \<longleftrightarrow> \<not> is_space c \<and> c \<noteq> dq \<and> c \<noteq> sq"

definition quoted :: "char \<Rightarrow> string \<Rightarrow> (string \<times> string) option" where
  "quoted q cs =
     (case dropWhile (\<lambda>c. c \<noteq> q) cs of
        [] \<Rightarrow> None
      | _ # rest \<Rightarrow> Some (q # takeWhile (\<lambda>c. c \<noteq> q) cs @ [q], rest))"

definition piece :: "string \<Rightarrow> (string \<times> string) option" where
  "piece s =
     (case s of
        [] \<Rightarrow> None
      | c # cs \<Rightarrow>
          if bare c then Some (takeWhile bare s, dropWhile bare s)
          else if c = dq then quoted dq cs
          else if c = sq then quoted sq cs
          else None)"

lemma quoted_splits: "quoted q cs = Some (m, r) \<Longrightarrow> q # cs = m @ r \<and> m \<noteq> []"
proof -
  assume a: "quoted q cs = Some (m, r)"
  have id: "takeWhile (\<lambda>c. c \<noteq> q) cs @ dropWhile (\<lambda>c. c \<noteq> q) cs = cs"
    by (rule takeWhile_dropWhile_id)
  from a obtain x where d: "dropWhile (\<lambda>c. c \<noteq> q) cs = x # r"
    and m: "m = q # takeWhile (\<lambda>c. c \<noteq> q) cs @ [q]"
    by (auto simp: quoted_def split: list.splits)
  from d have "x = q"
    using hd_dropWhile [of "\<lambda>c. c \<noteq> q" cs] by fastforce
  with id d m show ?thesis by (metis append.assoc append_Cons append_Nil list.distinct(1))
qed

lemma piece_splits: "piece s = Some (m, r) \<Longrightarrow> s = m @ r \<and> m \<noteq> []"
  by (cases s) (auto simp: piece_def split: if_splits dest: quoted_splits)

lemma piece_shorter: "piece s = Some (m, r) \<Longrightarrow> length r < length s"
  using piece_splits [of s m r] by (cases m) auto

text \<open>The group repeated while it matches (the \<^verbatim>\<open>+\<close> after its first pass).\<close>

function pieces :: "string \<Rightarrow> string \<times> string" where
  "pieces s =
     (case piece s of
        None \<Rightarrow> ([], s)
      | Some (m, r) \<Rightarrow> (case pieces r of (ms, r') \<Rightarrow> (m @ ms, r')))"
  by pat_completeness auto
termination
  by (relation "measure length") (auto dest: piece_shorter)

declare pieces.simps [simp del]

text \<open>The whole expression tried at the start of \<open>s\<close>: at least one pass of the group.\<close>

definition token_at :: "string \<Rightarrow> (string \<times> string) option" where
  "token_at s =
     (case piece s of
        None \<Rightarrow> None
      | Some (m, r) \<Rightarrow> (case pieces r of (ms, r') \<Rightarrow> Some (m @ ms, r')))"

lemma pieces_None: "piece s = None \<Longrightarrow> pieces s = ([], s)"
  by (subst pieces.simps) simp

lemma pieces_Some:
  "piece s = Some (m, r) \<Longrightarrow> pieces s = (m @ fst (pieces r), snd (pieces r))"
  by (subst pieces.simps) (simp add: case_prod_beta)

lemma pieces_splits: "fst (pieces s) @ snd (pieces s) = s"
proof (induction s rule: pieces.induct)
  case (1 s)
  show ?case
  proof (cases "piece s")
    case None
    then show ?thesis by (simp add: pieces_None)
  next
    case (Some a)
    obtain m r where a: "a = (m, r)" by (cases a)
    from Some a have p: "piece s = Some (m, r)" by simp
    have "fst (pieces s) @ snd (pieces s) = m @ (fst (pieces r) @ snd (pieces r))"
      by (simp add: pieces_Some [OF p])
    also have "\<dots> = m @ r"
      by (simp only: "1.IH" [OF Some a [symmetric]])
    also have "\<dots> = s"
      using piece_splits [OF p] by simp
    finally show ?thesis .
  qed
qed

lemma token_at_Some:
  "piece s = Some (m, r) \<Longrightarrow> token_at s = Some (m @ fst (pieces r), snd (pieces r))"
  by (simp add: token_at_def case_prod_beta)

lemma token_at_None: "piece s = None \<Longrightarrow> token_at s = None"
  by (simp add: token_at_def)

lemma token_at_splits: "token_at s = Some (m, r) \<Longrightarrow> s = m @ r \<and> m \<noteq> []"
proof -
  assume a: "token_at s = Some (m, r)"
  then obtain m1 r1 where p: "piece s = Some (m1, r1)"
    by (cases "piece s") (auto simp: token_at_None)
  from a token_at_Some [OF p] have "m = m1 @ fst (pieces r1)" "r = snd (pieces r1)"
    by simp_all
  with piece_splits [OF p] pieces_splits [of r1] show ?thesis by simp
qed

lemma token_at_shorter: "token_at s = Some (m, r) \<Longrightarrow> length r < length s"
  using token_at_splits [of s m r] by (cases m) auto

text \<open>
  \<^verbatim>\<open>searchText.match(/.../g)\<close>: the expression is tried at each position from left
  to right; after a match the search goes on behind it, after a failure one character
  further. \<open>match_all\<close> lists the matches, and \<open>js_match\<close> is \<^verbatim>\<open>null\<close> (\<open>None\<close>)
  when there is none.
\<close>

function match_all :: "string \<Rightarrow> string list" where
  "match_all [] = []"
| "match_all (c # cs) =
     (case token_at (c # cs) of
        None \<Rightarrow> match_all cs
      | Some (m, r) \<Rightarrow> m # match_all r)"
  by pat_completeness auto
termination
  by (relation "measure length") (auto dest: token_at_shorter)

definition js_match :: "string \<Rightarrow> string list option" where
  "js_match s = (case match_all s of [] \<Rightarrow> None | m # ms \<Rightarrow> Some (m # ms))"

text \<open>The last \<^verbatim>\<open>map\<close> of \<^verbatim>\<open>tokenize\<close>: quotes are stripped from the value of a
  field. \<^verbatim>\<open>if (filter)\<close> holds for a string that is neither \<^verbatim>\<open>null\<close> nor empty.\<close>

definition stripFieldValue :: "string \<Rightarrow> string" where
  "stripFieldValue token =
     (case splitTerm token of
        (Some fil, d) \<Rightarrow> if fil \<noteq> [] then fil @ '':'' @ removeSurroundingQuotes d else token
      | (None, d) \<Rightarrow> token)"

definition tokenize :: "string \<Rightarrow> string list" where
  "tokenize searchText =
     (case js_match searchText of
        None \<Rightarrow> []
      | Some tokenMatches \<Rightarrow>
          map stripFieldValue
            (filter (\<lambda>token. length token > 0)
              (map removeSurroundingQuotes tokenMatches)))"

section \<open>toObject\<close>

text \<open>
  The object that \<^verbatim>\<open>toObject\<close> builds is a list of keys with their arrays, in the
  order in which the keys were added. Its keys come from a fixed set of names, none of
  them a property that every object inherits, so \<^verbatim>\<open>obj[backendField]\<close> is
  an array when the key was added before, and \<^verbatim>\<open>undefined\<close> otherwise.
\<close>

type_synonym obj = "(string \<times> string list) list"

definition backendFilter :: "string \<Rightarrow> string" where
  "backendFilter field = (if field = ''tag'' then ''tags'' else field)"

definition push_value :: "obj \<Rightarrow> string \<Rightarrow> string \<Rightarrow> obj" where
  "push_value obj backendField d =
     (case map_of obj backendField of
        Some vs \<Rightarrow> map (\<lambda>(k, ws). if k = backendField then (k, ws @ [d]) else (k, ws)) obj
      | None \<Rightarrow> obj @ [(backendField, [d])])"

text \<open>The body of the loop; \<^verbatim>\<open>!field\<close> holds for \<^verbatim>\<open>null\<close> and for the empty
  string.\<close>

definition toObject_step :: "obj \<Rightarrow> string \<Rightarrow> obj" where
  "toObject_step obj t =
     (case splitTerm t of
        (None, d) \<Rightarrow> push_value obj (backendFilter ''any'') t
      | (Some field, d) \<Rightarrow>
          if field = [] then push_value obj (backendFilter ''any'') t
          else push_value obj (backendFilter field) d)"

definition toObject :: "string \<Rightarrow> obj" where
  "toObject searchText = foldl toObject_step [] (tokenize searchText)"

section \<open>generateFacetedFilter\<close>

text \<open>
  The terms of a facet are strings, or numbers in the facet \<^verbatim>\<open>since\<close>. A number of
  JavaScript is a double. The numbers that arise here are natural numbers: the value of
  a string of digits, and its product with the seconds of a unit. A double holds every
  natural number up to \<open>2 ^ 53\<close> exactly, and the product of two such numbers exactly
  when it is at most \<open>2 ^ 53\<close>: that is \<open>Num n\<close>. Beyond \<open>2 ^ 53\<close> the double is a
  rounding of the number; the model does not follow the rounding and writes \<open>Rounded\<close>.
  \<open>NaN\<close> is what a product with \<^verbatim>\<open>undefined\<close> would be.
\<close>

datatype facet_value = Str string | Num nat | Rounded | NaN

definition js_number :: "nat \<Rightarrow> facet_value" where
  "js_number n = (if n \<le> 2 ^ 53 then Num n else Rounded)"

record facet =
  terms :: "facet_value list"
  operator :: string

record focusFilter =
  user :: "string option"

text \<open>The seven arrays that the loop fills.\<close>

record arrays =
  any_terms :: "facet_value list"
  quote_terms :: "facet_value list"
  since_terms :: "facet_value list"
  tag_terms :: "facet_value list"
  text_terms :: "facet_value list"
  uri_terms :: "facet_value list"
  user_terms :: "facet_value list"

definition secondsPerDay :: nat where
  "secondsPerDay = 24 * 60 * 60"

definition secondsPerUnit :: "(string \<times> nat) list" where
  "secondsPerUnit =
     [(''sec'', 1), (''min'', 60), (''hour'', 60 * 60), (''day'', secondsPerDay),
      (''week'', 7 * secondsPerDay), (''month'', 30 * secondsPerDay),
      (''year'', 365 * secondsPerDay)]"

text \<open>
  \<^verbatim>\<open>time.match(/^(\d+)(sec|min|hour|day|week|month|year)?$/)\<close>: the digits are
  matched greedily, and what follows them is nothing or one of the units. The result
  holds the two groups; a group that took no part is \<^verbatim>\<open>undefined\<close> (\<open>None\<close>).
\<close>

definition since_match :: "string \<Rightarrow> (string \<times> string option) option" where
  "since_match time =
     (let ds = takeWhile is_digit time; rest = dropWhile is_digit time
      in if ds = [] then None
         else if rest = [] then Some (ds, None)
         else if rest \<in> set [''sec'', ''min'', ''hour'', ''day'', ''week'', ''month'', ''year'']
           then Some (ds, Some rest)
         else None)"

text \<open>\<^verbatim>\<open>parseFloat\<close> on a string of digits: its decimal value.\<close>

definition digit_val :: "char \<Rightarrow> nat" where
  "digit_val c = of_char c - 48"

definition parseFloat :: "string \<Rightarrow> nat" where
  "parseFloat ds = foldl (\<lambda>n c. 10 * n + digit_val c) 0 ds"

text \<open>The case \<^verbatim>\<open>'since'\<close> of the switch. \<open>v\<close> is \<^verbatim>\<open>parseFloat(match[1])\<close> and
  \<open>k\<close> is \<^verbatim>\<open>secondsPerUnit[unit]\<close>; the double that their product gives is
  \<open>js_number (v * k)\<close>, also when \<open>v\<close> itself is beyond \<open>2 ^ 53\<close>.\<close>

definition push_since :: "arrays \<Rightarrow> string \<Rightarrow> arrays" where
  "push_since acc t =
     (let time = toLowerCase (slice_from t 6)
      in case since_match time of
           None \<Rightarrow> acc
         | Some (g1, g2) \<Rightarrow>
             (let v = parseFloat g1;
                  unit = (case g2 of None \<Rightarrow> ''sec'' | Some u \<Rightarrow> if u = [] then ''sec'' else u)
              in case map_of secondsPerUnit unit of
                   Some k \<Rightarrow> acc\<lparr>since_terms := since_terms acc @ [js_number (v * k)]\<rparr>
                 | None \<Rightarrow> acc\<lparr>since_terms := since_terms acc @ [NaN]\<rparr>))"

text \<open>The body of the loop: the prefix is cut as in \<^verbatim>\<open>splitTerm\<close>, and the switch
  compares it with the names of six facets.\<close>

definition facet_step :: "arrays \<Rightarrow> string \<Rightarrow> arrays" where
  "facet_step acc t =
     (let fil = slice t 0 (indexOf t (CHR '':''));
          fieldValue = slice_from t (int (length fil) + 1)
      in if fil = ''quote'' then acc\<lparr>quote_terms := quote_terms acc @ [Str fieldValue]\<rparr>
         else if fil = ''since'' then push_since acc t
         else if fil = ''tag'' then acc\<lparr>tag_terms := tag_terms acc @ [Str fieldValue]\<rparr>
         else if fil = ''text'' then acc\<lparr>text_terms := text_terms acc @ [Str fieldValue]\<rparr>
         else if fil = ''uri'' then acc\<lparr>uri_terms := uri_terms acc @ [Str fieldValue]\<rparr>
         else if fil = ''user'' then acc\<lparr>user_terms := user_terms acc @ [Str fieldValue]\<rparr>
         else acc\<lparr>any_terms := any_terms acc @ [Str t]\<rparr>)"

text \<open>The arrays before the loop; \<^verbatim>\<open>focusFilters.user\<close> counts when it is a
  non-empty string.\<close>

definition initial :: "focusFilter \<Rightarrow> arrays" where
  "initial focusFilters =
     \<lparr>any_terms = [], quote_terms = [], since_terms = [], tag_terms = [], text_terms = [],
      uri_terms = [],
      user_terms = (case user focusFilters of
                      None \<Rightarrow> []
                    | Some u \<Rightarrow> if u = [] then [] else [Str u])\<rparr>"

text \<open>The object returned, as the list of its keys with their facets.\<close>

definition generateFacetedFilter :: "string \<Rightarrow> focusFilter \<Rightarrow> (string \<times> facet) list" where
  "generateFacetedFilter searchText focusFilters =
     (let acc = foldl facet_step (initial focusFilters) (tokenize searchText)
      in [(''any'', \<lparr>terms = any_terms acc, operator = ''and''\<rparr>),
          (''quote'', \<lparr>terms = quote_terms acc, operator = ''and''\<rparr>),
          (''since'', \<lparr>terms = since_terms acc, operator = ''and''\<rparr>),
          (''tag'', \<lparr>terms = tag_terms acc, operator = ''and''\<rparr>),
          (''text'', \<lparr>terms = text_terms acc, operator = ''and''\<rparr>),
          (''uri'', \<lparr>terms = uri_terms acc, operator = ''or''\<rparr>),
          (''user'', \<lparr>terms = user_terms acc, operator = ''or''\<rparr>)])"

text \<open>A call with no second argument takes the default \<^verbatim>\<open>{}\<close>.\<close>

definition no_focus :: focusFilter where
  "no_focus = \<lparr>user = None\<rparr>"

section \<open>Notions of the specification\<close>

text \<open>
  The definitions of this section are not part of the program. They are the notions in
  which the theorems below say what the program does, worded after the specification.
\<close>








text \<open>
  The key and the value of a token in the flat form, as the specification words them:
  a token with no recognised field goes under \<^verbatim>\<open>any\<close> whole, the field
  \<^verbatim>\<open>tag\<close> is renamed to \<^verbatim>\<open>tags\<close>, and every other field keeps its name.
\<close>

definition spec_key :: "string \<Rightarrow> string" where
  "spec_key t = (case fst (splitTerm t) of None \<Rightarrow> ''any'' | Some f \<Rightarrow> if f = ''tag'' then ''tags'' else f)"

definition spec_value :: "string \<Rightarrow> string" where
  "spec_value t = (case fst (splitTerm t) of None \<Rightarrow> t | Some f \<Rightarrow> snd (splitTerm t))"

text \<open>The elements of a list in the order in which they first occur, leaving out the ones
  already seen.\<close>

fun first_occurrences :: "'a list \<Rightarrow> 'a list \<Rightarrow> 'a list" where
  "first_occurrences seen [] = []"
| "first_occurrences seen (x # xs) =
     (if x \<in> set seen then first_occurrences seen xs else x # first_occurrences (x # seen) xs)"

text \<open>
  The grammar of a duration, as the specification words it: digits, then nothing or one
  of seven units, in upper or lower case. \<open>spec_units\<close> is the table of the
  specification (the program computes its own, \<open>secondsPerUnit\<close>), \<open>decimal\<close> the number that a string of digits denotes, and
  \<open>same_word u w\<close> says that \<open>u\<close> is the lower-case word \<open>w\<close> up to the case of its
  letters.
\<close>

definition spec_units :: "(string \<times> nat) list" where
  "spec_units =
     [(''sec'', 1), (''min'', 60), (''hour'', 3600), (''day'', 86400), (''week'', 604800),
      (''month'', 2592000), (''year'', 31536000)]"

definition decimal :: "string \<Rightarrow> nat" where
  "decimal ds = (\<Sum>i<length ds. digit_val (ds ! i) * 10 ^ (length ds - Suc i))"

fun same_word :: "string \<Rightarrow> string \<Rightarrow> bool" where
  "same_word [] [] = True"
| "same_word (a # u) (b # w) =
     ((a = b \<or> (of_char a :: nat) + 32 = of_char b) \<and> same_word u w)"
| "same_word [] (b # w) = False"
| "same_word (a # u) [] = False"

text \<open>The letters a to z, of which the names of the units are made.\<close>

definition small_letter :: "char \<Rightarrow> bool" where
  "small_letter b \<longleftrightarrow> 97 \<le> (of_char b :: nat) \<and> (of_char b :: nat) \<le> 122"




text \<open>
  The facet of a token, as its place in that order, and the text that the token carries
  for it, both read off the token itself: a token that starts with \<^verbatim>\<open>quote:\<close>,
  \<^verbatim>\<open>since:\<close>, \<^verbatim>\<open>tag:\<close>, \<^verbatim>\<open>text:\<close>, \<^verbatim>\<open>uri:\<close> or \<^verbatim>\<open>user:\<close> belongs to
  that facet with the text after the colon, and every other token belongs to
  \<^verbatim>\<open>any\<close> whole.
\<close>

definition spec_facet :: "string \<Rightarrow> nat" where
  "spec_facet t =
     (if take 6 t = ''quote:'' then 1
      else if take 6 t = ''since:'' then 2
      else if take 4 t = ''tag:'' then 3
      else if take 5 t = ''text:'' then 4
      else if take 4 t = ''uri:'' then 5
      else if take 5 t = ''user:'' then 6
      else 0)"



section \<open>Properties of the string operations\<close>

text \<open>What \<^verbatim>\<open>slice\<close> and \<^verbatim>\<open>indexOf\<close> compute in the calls that the filter
  makes, in terms of the list functions.\<close>

lemma slice_0_nonneg: "0 \<le> i \<Longrightarrow> slice s 0 i = take (nat i) s"
  by (simp add: slice_def clamp_index_def Let_def min_def)

lemma slice_0_minus_1: "slice s 0 (- 1) = butlast s"
  by (cases "s = []") (simp_all add: slice_def clamp_index_def Let_def butlast_conv_take nat_diff_distrib')

lemma slice_from_nat: "slice_from s (int n) = drop n s"
  by (simp add: slice_from_def clamp_index_def min_def)

lemma slice_from_minus_1: "slice_from s (- 1) = (if s = [] then [] else [last s])"
proof (cases "s = []")
  case True
  then show ?thesis by (simp add: slice_from_def)
next
  case False
  then have "clamp_index (length s) (- 1) = length s - 1"
    by (cases s) (simp_all add: clamp_index_def)
  then have "slice_from s (- 1) = drop (length s - 1) s"
    by (simp add: slice_from_def)
  also from False have "\<dots> = [last s]"
    by (metis append_butlast_last_id append_eq_conv_conj length_butlast)
  finally show ?thesis using False by simp
qed

lemma slice_1_len: "slice s 1 (int (length s) - 1) = butlast (tl s)"
proof (cases s)
  case Nil
  then show ?thesis by (simp add: slice_def clamp_index_def)
next
  case (Cons a as)
  then show ?thesis
    by (simp add: slice_def clamp_index_def Let_def butlast_conv_take min_def drop_Suc)
qed

lemma indexOf_present: "c \<in> set s \<Longrightarrow> indexOf s c = int (length (takeWhile (\<lambda>x. x \<noteq> c) s))"
  by (simp add: indexOf_def)

lemma indexOf_absent: "c \<notin> set s \<Longrightarrow> indexOf s c = - 1"
  by (simp add: indexOf_def)

lemma prefix_colon:
  "CHR '':'' \<in> set t \<Longrightarrow> slice t 0 (indexOf t (CHR '':'')) = takeWhile (\<lambda>x. x \<noteq> CHR '':'') t"
  by (simp add: indexOf_present slice_0_nonneg takeWhile_eq_take [symmetric])

lemma prefix_no_colon:
  "CHR '':'' \<notin> set t \<Longrightarrow> slice t 0 (indexOf t (CHR '':'')) = butlast t"
  by (simp add: indexOf_absent slice_0_minus_1)

lemma rest_colon:
  "CHR '':'' \<in> set t \<Longrightarrow>
   slice_from t (int (length (takeWhile (\<lambda>x. x \<noteq> CHR '':'') t)) + 1) = tl (dropWhile (\<lambda>x. x \<noteq> CHR '':'') t)"
proof -
  have "int (length (takeWhile (\<lambda>x. x \<noteq> CHR '':'') t)) + 1 = int (Suc (length (takeWhile (\<lambda>x. x \<noteq> CHR '':'') t)))"
    by simp
  then show ?thesis
    by (simp only: slice_from_nat) (simp add: dropWhile_eq_drop drop_Suc tl_drop)
qed

lemma empty_not_field: "[] \<notin> set field_names"
  by (simp add: field_names_def)

lemma takeWhile_upto: "c \<notin> set f \<Longrightarrow> takeWhile (\<lambda>x. x \<noteq> c) (f @ c # v) = f"
  by (induction f) auto

lemma dropWhile_upto: "c \<notin> set f \<Longrightarrow> dropWhile (\<lambda>x. x \<noteq> c) (f @ c # v) = c # v"
  by (induction f) auto

lemma splitTerm_colon:
  "CHR '':'' \<in> set t \<Longrightarrow>
   splitTerm t =
     (if takeWhile (\<lambda>x. x \<noteq> CHR '':'') t \<in> set field_names
      then (Some (takeWhile (\<lambda>x. x \<noteq> CHR '':'') t), tl (dropWhile (\<lambda>x. x \<noteq> CHR '':'') t))
      else (None, t))"
  by (simp add: splitTerm_def prefix_colon rest_colon Let_def empty_not_field)

lemma splitTerm_no_colon:
  "CHR '':'' \<notin> set t \<Longrightarrow>
   splitTerm t = (if butlast t \<in> set field_names then (Some (butlast t), []) else (None, t))"
proof -
  assume a: "CHR '':'' \<notin> set t"
  have "slice_from t (int (length (butlast t)) + 1) = []"
  proof -
    have "int (length (butlast t)) + 1 = int (Suc (length (butlast t)))" by simp
    then show ?thesis by (simp only: slice_from_nat) simp
  qed
  with a show ?thesis
    by (simp add: splitTerm_def prefix_no_colon Let_def empty_not_field)
qed

lemma splitTerm_field:
  assumes "f \<in> set field_names"
  shows "splitTerm (f @ CHR '':'' # v) = (Some f, v)"
proof -
  from assms have nc: "CHR '':'' \<notin> set f" by (auto simp: field_names_def)
  then have "takeWhile (\<lambda>x. x \<noteq> CHR '':'') (f @ CHR '':'' # v) = f"
    by (rule takeWhile_upto)
  moreover from nc have "dropWhile (\<lambda>x. x \<noteq> CHR '':'') (f @ CHR '':'' # v) = CHR '':'' # v"
    by (rule dropWhile_upto)
  ultimately show ?thesis using assms by (simp add: splitTerm_colon)
qed

lemma splitTerm_Some: "splitTerm t = (Some f, d) \<Longrightarrow> f \<in> set field_names \<and> (t = f @ CHR '':'' # d \<or> (t = f @ [last t] \<and> d = [] \<and> CHR '':'' \<notin> set t))"
proof (cases "CHR '':'' \<in> set t")
  case True
  assume a: "splitTerm t = (Some f, d)"
  with True have f: "f = takeWhile (\<lambda>x. x \<noteq> CHR '':'') t" "f \<in> set field_names" and d: "d = tl (dropWhile (\<lambda>x. x \<noteq> CHR '':'') t)"
    by (auto simp: splitTerm_colon split: if_splits)
  from True have "dropWhile (\<lambda>x. x \<noteq> CHR '':'') t \<noteq> []" by simp
  then have "dropWhile (\<lambda>x. x \<noteq> CHR '':'') t = CHR '':'' # d"
    using hd_dropWhile [of "\<lambda>x. x \<noteq> CHR '':''" t] d by (cases "dropWhile (\<lambda>x. x \<noteq> CHR '':'') t") auto
  with f show ?thesis using takeWhile_dropWhile_id [of "\<lambda>x. x \<noteq> CHR '':''" t] by metis
next
  case False
  assume a: "splitTerm t = (Some f, d)"
  with False have f: "f = butlast t" "f \<in> set field_names" "d = []"
    by (auto simp: splitTerm_no_colon split: if_splits)
  then have "t \<noteq> []" by (auto simp: field_names_def)
  with f False show ?thesis by simp
qed

section \<open>The tokens that tokenize returns\<close>

lemma stripFieldValue_Some:
  "splitTerm r = (Some f, d) \<Longrightarrow> stripFieldValue r = f @ CHR '':'' # removeSurroundingQuotes d"
  using splitTerm_Some [of r f d] empty_not_field
  by (auto simp: stripFieldValue_def)

lemma stripFieldValue_None: "splitTerm r = (None, d) \<Longrightarrow> stripFieldValue r = r"
  by (simp add: stripFieldValue_def)

lemma stripFieldValue_well_split:
  "CHR '':'' \<in> set (stripFieldValue r) \<or> butlast (stripFieldValue r) \<notin> set field_names"
proof (cases "splitTerm r")
  case (Pair a d)
  show ?thesis
  proof (cases a)
    case None
    with Pair have s: "stripFieldValue r = r" by (simp add: stripFieldValue_None)
    show ?thesis
    proof (cases "CHR '':'' \<in> set r")
      case True
      with s show ?thesis by simp
    next
      case False
      with Pair None have "butlast r \<notin> set field_names"
        by (auto simp: splitTerm_no_colon split: if_splits)
      with s show ?thesis by simp
    qed
  next
    case (Some f)
    with Pair show ?thesis by (simp add: stripFieldValue_Some)
  qed
qed

lemma tokenize_eq:
  "tokenize s = map stripFieldValue (filter (\<lambda>t. t \<noteq> []) (map removeSurroundingQuotes (match_all s)))"
  by (cases "match_all s") (simp_all add: tokenize_def js_match_def)

lemma tokenize_well_split:
  "t \<in> set (tokenize s) \<Longrightarrow> CHR '':'' \<in> set t \<or> butlast t \<notin> set field_names"
  using stripFieldValue_well_split by (auto simp: tokenize_eq)

text \<open>For a token that holds a colon or is not a field name with one more character,
  the prefix that the loops cut is a field name only in front of a colon.\<close>

lemma prefix_is_field:
  assumes "CHR '':'' \<in> set t \<or> butlast t \<notin> set field_names" and "f \<in> set field_names"
  shows "slice t 0 (indexOf t (CHR '':'')) = f \<longleftrightarrow> take (length f + 1) t = f @ '':''"
proof (cases "CHR '':'' \<in> set t")
  case True
  from assms(2) have nc: "CHR '':'' \<notin> set f" by (auto simp: field_names_def)
  let ?P = "\<lambda>x. x \<noteq> CHR '':''"
  have id: "takeWhile ?P t @ dropWhile ?P t = t" by (rule takeWhile_dropWhile_id)
  from True obtain d where d: "dropWhile ?P t = CHR '':'' # d"
    using hd_dropWhile [of ?P t] by (cases "dropWhile ?P t") auto
  show ?thesis
  proof
    assume "slice t 0 (indexOf t (CHR '':'')) = f"
    with True have "takeWhile ?P t = f" by (simp add: prefix_colon)
    with id d have "t = f @ CHR '':'' # d" by simp
    then show "take (length f + 1) t = f @ '':''" by simp
  next
    assume a: "take (length f + 1) t = f @ '':''"
    have "t = take (length f + 1) t @ drop (length f + 1) t" by simp
    with a have "t = f @ CHR '':'' # drop (length f + 1) t" by simp
    then have "takeWhile ?P t = f" using takeWhile_upto [OF nc] by metis
    with True show "slice t 0 (indexOf t (CHR '':'')) = f" by (simp add: prefix_colon)
  qed
next
  case False
  with assms have "slice t 0 (indexOf t (CHR '':'')) \<noteq> f" by (auto simp: prefix_no_colon)
  moreover have "take (length f + 1) t \<noteq> f @ '':''"
  proof
    assume "take (length f + 1) t = f @ '':''"
    then have "CHR '':'' \<in> set (take (length f + 1) t)" by simp
    then have "CHR '':'' \<in> set t" by (rule in_set_takeD)
    with False show False by simp
  qed
  ultimately show ?thesis by simp
qed

section \<open>The since facet\<close>

lemma is_digit_lower: "is_digit (lower_char c) = is_digit c"
  by (auto simp: is_digit_def lower_char_def Let_def)

lemma lower_digit: "is_digit c \<Longrightarrow> lower_char c = c"
  by (auto simp: is_digit_def lower_char_def Let_def)

lemma takeWhile_digit_lower:
  "takeWhile is_digit (toLowerCase v) = takeWhile is_digit v"
  by (induction v) (simp_all add: toLowerCase_def is_digit_lower lower_digit)

lemma dropWhile_digit_lower:
  "dropWhile is_digit (toLowerCase v) = toLowerCase (dropWhile is_digit v)"
  by (induction v) (simp_all add: toLowerCase_def is_digit_lower)

lemma lower_char_small:
  assumes "small_letter b"
  shows "lower_char a = b \<longleftrightarrow> a = b \<or> (of_char a :: nat) + 32 = of_char b"
proof -
  define n m where "n = (of_char a :: nat)" and "m = (of_char b :: nat)"
  have a: "a = char_of n" and b: "b = char_of m" by (simp_all add: n_def m_def)
  have lt: "n < 256" by (simp add: n_def)
  have eq: "a = b \<longleftrightarrow> n = m" by (simp add: n_def m_def)
  from assms have m: "97 \<le> m" "m \<le> 122" by (simp_all add: small_letter_def m_def)
  have low: "lower_char a =
    (if (65 \<le> n \<and> n \<le> 90) \<or> (192 \<le> n \<and> n \<le> 214) \<or> (216 \<le> n \<and> n \<le> 222)
     then char_of (n + 32) else a)"
    by (simp add: lower_char_def Let_def n_def)
  have "lower_char a = b \<longleftrightarrow> a = b \<or> n + 32 = m"
  proof (cases "(65 \<le> n \<and> n \<le> 90) \<or> (192 \<le> n \<and> n \<le> 214) \<or> (216 \<le> n \<and> n \<le> 222)")
    case True
    then have "n + 32 < 256" by auto
    then have md: "(n + 32) mod 256 = n + 32" by simp
    have "char_of (n + 32) = b \<longleftrightarrow> (n + 32) mod 256 = m mod 256"
      unfolding b by (rule char_of_quasi_inj)
    also have "\<dots> \<longleftrightarrow> n + 32 = m" using m md by simp
    finally have "char_of (n + 32) = b \<longleftrightarrow> n + 32 = m" .
    moreover from True have "lower_char a = char_of (n + 32)" unfolding low by (rule if_P)
    ultimately have "lower_char a = b \<longleftrightarrow> n + 32 = m" by simp
    moreover from True m have "n \<noteq> m" by auto
    ultimately show ?thesis using eq by blast
  next
    case False
    then have "lower_char a = a" unfolding low by (rule if_not_P)
    moreover from False m have "n + 32 \<noteq> m" by auto
    ultimately show ?thesis using eq by metis
  qed
  then show ?thesis unfolding n_def m_def .
qed

lemma toLowerCase_same_word:
  "list_all small_letter w \<Longrightarrow> toLowerCase u = w \<longleftrightarrow> same_word u w"
proof (induction u w rule: same_word.induct)
  case (2 a u b w)
  then show ?case by (simp add: toLowerCase_def lower_char_small)
qed (simp_all add: toLowerCase_def)

lemma decimal_Nil: "decimal [] = 0"
  by (simp add: decimal_def)

lemma decimal_snoc: "decimal (ds @ [c]) = 10 * decimal ds + digit_val c"
proof -
  have "(\<Sum>i<length ds. digit_val ((ds @ [c]) ! i) * 10 ^ (length (ds @ [c]) - Suc i))
      = (\<Sum>i<length ds. 10 * (digit_val (ds ! i) * 10 ^ (length ds - Suc i)))"
  proof (rule sum.cong)
    fix i assume "i \<in> {..<length ds}"
    then have i: "i < length ds" by simp
    then have "length (ds @ [c]) - Suc i = Suc (length ds - Suc i)" by simp
    with i show "digit_val ((ds @ [c]) ! i) * 10 ^ (length (ds @ [c]) - Suc i)
      = 10 * (digit_val (ds ! i) * 10 ^ (length ds - Suc i))"
      by (simp add: nth_append)
  qed simp
  then show ?thesis
    by (simp add: decimal_def sum_distrib_left)
qed

lemma parseFloat_decimal: "parseFloat ds = decimal ds"
proof (induction ds rule: rev_induct)
  case Nil
  then show ?case by (simp add: parseFloat_def decimal_Nil)
next
  case (snoc c ds)
  then show ?case by (simp add: parseFloat_def decimal_snoc)
qed

lemma units_agree: "secondsPerUnit = spec_units"
  by (simp add: secondsPerUnit_def spec_units_def secondsPerDay_def)

lemma spec_units_small:
  "(w, k) \<in> set spec_units \<Longrightarrow> list_all small_letter w \<and> w \<noteq> []"
  by (auto simp: spec_units_def small_letter_def)

lemma spec_units_names:
  "w \<in> set [''sec'', ''min'', ''hour'', ''day'', ''week'', ''month'', ''year''] \<longleftrightarrow> w \<in> fst ` set spec_units"
  by (simp add: spec_units_def)

lemma spec_units_map_of:
  "(w, k) \<in> set spec_units \<Longrightarrow> map_of spec_units w = Some k"
  by (rule map_of_is_SomeI) (simp_all add: spec_units_def)

lemma toLowerCase_Nil: "toLowerCase u = [] \<longleftrightarrow> u = []"
  by (simp add: toLowerCase_def)

lemma since_match_lower:
  "since_match (toLowerCase v) =
     (if takeWhile is_digit v = [] then None
      else if dropWhile is_digit v = [] then Some (takeWhile is_digit v, None)
      else if toLowerCase (dropWhile is_digit v) \<in> fst ` set spec_units
        then Some (takeWhile is_digit v, Some (toLowerCase (dropWhile is_digit v)))
      else None)"
  unfolding since_match_def Let_def takeWhile_digit_lower dropWhile_digit_lower
    spec_units_names
  by (simp add: toLowerCase_Nil)

lemma digits_split:
  assumes "list_all is_digit ds" and "u = [] \<or> \<not> is_digit (hd u)"
  shows "takeWhile is_digit (ds @ u) = ds \<and> dropWhile is_digit (ds @ u) = u"
proof -
  from assms(1) have all: "\<And>x. x \<in> set ds \<Longrightarrow> is_digit x" by (simp add: list_all_iff)
  from assms(2) have "takeWhile is_digit u = []" and "dropWhile is_digit u = u"
    by (cases u; simp)+
  with all show ?thesis by (simp add: takeWhile_append2 dropWhile_append2)
qed

lemma same_word_not_digit:
  assumes "same_word u w" and "list_all small_letter w" and "w \<noteq> []"
  shows "u \<noteq> [] \<and> \<not> is_digit (hd u)"
proof -
  from assms(3) obtain b w' where w: "w = b # w'" by (cases w) auto
  with assms(1) obtain a u' where u: "u = a # u'" by (cases u) auto
  from assms(1) u w have "a = b \<or> (of_char a :: nat) + 32 = of_char b" by simp
  moreover from assms(2) w have "97 \<le> (of_char b :: nat)" by (simp add: small_letter_def)
  ultimately have "\<not> is_digit a" by (auto simp: is_digit_def)
  with u show ?thesis by simp
qed

lemma facet_step_since: "facet_step acc (''since:'' @ v) = push_since acc (''since:'' @ v)"
proof -
  have "takeWhile (\<lambda>x. x \<noteq> CHR '':'') (''since'' @ CHR '':'' # v) = ''since''"
    by (rule takeWhile_upto) simp
  then have "slice (''since:'' @ v) 0 (indexOf (''since:'' @ v) (CHR '':'')) = ''since''"
    by (simp add: prefix_colon)
  then show ?thesis by (simp add: facet_step_def Let_def)
qed

lemma push_since_value:
  "push_since acc (''since:'' @ v) =
     (case since_match (toLowerCase v) of
        None \<Rightarrow> acc
      | Some (g1, g2) \<Rightarrow>
          (case map_of spec_units (case g2 of None \<Rightarrow> ''sec'' | Some u \<Rightarrow> if u = [] then ''sec'' else u) of
             Some k \<Rightarrow> acc\<lparr>since_terms := since_terms acc @ [js_number (decimal g1 * k)]\<rparr>
           | None \<Rightarrow> acc\<lparr>since_terms := since_terms acc @ [NaN]\<rparr>))"
proof -
  have "slice_from (''since:'' @ v) 6 = v"
    using slice_from_nat [of "''since:'' @ v" 6] by simp
  then show ?thesis
    by (simp add: push_since_def Let_def units_agree parseFloat_decimal
        split: option.split prod.split)
qed





lemma since_accept_parts:
  assumes v: "v = ds @ u" and ne: "ds \<noteq> []" and dg: "list_all is_digit ds"
    and alt: "u = [] \<and> k = 1 \<or> same_word u w \<and> (w, k) \<in> set spec_units"
  shows "facet_step acc (''since:'' @ v)
      = acc\<lparr>since_terms := since_terms acc @ [js_number (decimal ds * k)]\<rparr>"
proof -
  from alt have "u = [] \<or> \<not> is_digit (hd u)"
    using same_word_not_digit [of u w] spec_units_small [of w k] by blast
  with dg v have tw: "takeWhile is_digit v = ds" and dw: "dropWhile is_digit v = u"
    using digits_split [of ds u] by simp_all
  from alt show ?thesis
  proof
    assume "u = [] \<and> k = 1"
    with tw dw ne have "since_match (toLowerCase v) = Some (ds, None)"
      by (simp add: since_match_lower)
    with \<open>u = [] \<and> k = 1\<close> show ?thesis
      by (simp only: facet_step_since push_since_value) (simp add: spec_units_def)
  next
    assume b: "same_word u w \<and> (w, k) \<in> set spec_units"
    then have sm: "list_all small_letter w" and wne: "w \<noteq> []"
      using spec_units_small [of w k] by simp_all
    with b have low: "toLowerCase u = w" by (simp add: toLowerCase_same_word)
    from wne low have une: "u \<noteq> []" by (auto simp: toLowerCase_def)
    from b have "w \<in> fst ` set spec_units" by force
    with tw dw ne une low have "since_match (toLowerCase v) = Some (ds, Some w)"
      by (simp add: since_match_lower)
    moreover from b have "map_of spec_units w = Some k"
      by (simp add: spec_units_map_of)
    ultimately show ?thesis using wne
      by (simp only: facet_step_since push_since_value) simp
  qed
qed

lemma since_reject_parts:
  assumes a: "\<forall>ds u. v = ds @ u \<and> ds \<noteq> [] \<and> list_all is_digit ds
        \<longrightarrow> u \<noteq> [] \<and> (\<forall>w k. (w, k) \<in> set spec_units \<longrightarrow> \<not> same_word u w)"
  shows "facet_step acc (''since:'' @ v) = acc"
proof -
  let ?ds = "takeWhile is_digit v" and ?u = "dropWhile is_digit v"
  have "since_match (toLowerCase v) = None"
  proof (cases "?ds = []")
    case True
    then show ?thesis by (simp only: since_match_lower if_True simp_thms)
  next
    case False
    have dg: "list_all is_digit ?ds" by (auto simp: list_all_iff dest: set_takeWhileD)
    from dg False have "v = ?ds @ ?u \<and> ?ds \<noteq> [] \<and> list_all is_digit ?ds" by simp
    with a [rule_format, of ?ds ?u]
    have c: "?u \<noteq> [] \<and> (\<forall>w k. (w, k) \<in> set spec_units \<longrightarrow> \<not> same_word ?u w)"
      by blast
    then have une: "?u \<noteq> []"
      and no: "\<And>w k. (w, k) \<in> set spec_units \<Longrightarrow> \<not> same_word ?u w"
      by blast+
    have "toLowerCase ?u \<notin> fst ` set spec_units"
    proof
      assume "toLowerCase ?u \<in> fst ` set spec_units"
      then obtain k where k: "(toLowerCase ?u, k) \<in> set spec_units" by force
      then have "list_all small_letter (toLowerCase ?u)"
        using spec_units_small by blast
      then have "same_word ?u (toLowerCase ?u)"
        using toLowerCase_same_word [of "toLowerCase ?u" ?u] by simp
      with no [OF k] show False by simp
    qed
    with False une show ?thesis by (simp only: since_match_lower if_False simp_thms)
  qed
  then show ?thesis
    by (simp only: facet_step_since push_since_value) simp
qed



lemma tok_3days: "tokenize ''since:3days'' = [''since:3days'']" by code_simp
lemma tok_3day: "tokenize ''since:3day'' = [''since:3day'']" by code_simp
lemma tok_bad: "tokenize ''since:badvalue'' = [''since:badvalue'']" by code_simp

lemma sm_3days: "since_match (toLowerCase ''3days'') = None" by code_simp
lemma sm_3day: "since_match (toLowerCase ''3day'') = Some (''3'', Some ''day'')" by code_simp
lemma sm_bad: "since_match (toLowerCase ''badvalue'') = None" by code_simp
lemma dec_3: "decimal ''3'' = 3" by (simp add: decimal_def digit_val_def)

lemma ex_3day:
  "map_of (generateFacetedFilter ''since:3day'' no_focus) ''since'' = Some \<lparr>terms = [Num 259200], operator = ''and''\<rparr>"
proof -
  have "facet_step (initial no_focus) (''since:'' @ ''3day'') =
      (initial no_focus)\<lparr>since_terms := since_terms (initial no_focus) @ [js_number (decimal ''3'' * 86400)]\<rparr>"
    by (simp only: facet_step_since push_since_value sm_3day option.case prod.case)
      (simp add: spec_units_def)
  then show ?thesis
    by (simp add: generateFacetedFilter_def tok_3day initial_def no_focus_def dec_3 js_number_def)
qed

lemma ex_bad:
  "map (terms \<circ> snd) (generateFacetedFilter ''since:badvalue'' no_focus) = [[], [], [], [], [], [], []]"
proof -
  have "facet_step (initial no_focus) (''since:'' @ ''badvalue'') = initial no_focus"
    by (simp only: facet_step_since push_since_value sm_bad option.case)
  then show ?thesis
    by (simp add: generateFacetedFilter_def tok_bad initial_def no_focus_def)
qed

text \<open>
  Claim C4, amended in its first example and in the range of the numbers. A token
  \<^verbatim>\<open>since:v\<close> goes to the case \<^verbatim>\<open>'since'\<close>. When \<open>v\<close> is a non-empty string of
  digits \<open>ds\<close> followed by nothing (then \<open>k = 1\<close>) or by a unit of the table in any
  case (then \<open>k\<close> is its multiplier), one term is appended to the terms of
  \<^verbatim>\<open>since\<close> and nothing else changes: the term is the number \<open>decimal ds * k\<close> when
  that product is at most \<open>2 ^ 53\<close>, and beyond this bound a number that the theorem
  leaves open (\<open>Rounded\<close>: the double that JavaScript computes there need not be the
  product). When \<open>v\<close> has no such reading, no array changes. Among the tokens of
  \<^verbatim>\<open>tokenize\<close>, the ones that reach the case are the ones that start with
  \<^verbatim>\<open>since:\<close>. \<^verbatim>\<open>since:3day\<close> yields the terms \<open>[259200]\<close>, and
  \<^verbatim>\<open>since:badvalue\<close> leaves every facet empty.
\<close>

theorem since_duration:
  "(\<forall>ds u w k.
      v = ds @ u \<and> ds \<noteq> [] \<and> list_all is_digit ds \<and>
      (u = [] \<and> k = 1 \<or> same_word u w \<and> (w, k) \<in> set spec_units)
      \<longrightarrow> facet_step acc (''since:'' @ v)
          = acc\<lparr>since_terms := since_terms acc @
              [if decimal ds * k \<le> 2 ^ 53 then Num (decimal ds * k) else Rounded]\<rparr>) \<and>
   ((\<forall>ds u. v = ds @ u \<and> ds \<noteq> [] \<and> list_all is_digit ds
        \<longrightarrow> u \<noteq> [] \<and> (\<forall>w k. (w, k) \<in> set spec_units \<longrightarrow> \<not> same_word u w))
      \<longrightarrow> facet_step acc (''since:'' @ v) = acc) \<and>
   (\<forall>t \<in> set (tokenize s).
      slice t 0 (indexOf t (CHR '':'')) = ''since'' \<longleftrightarrow> take 6 t = ''since:'') \<and>
   map_of (generateFacetedFilter ''since:3day'' no_focus) ''since''
     = Some \<lparr>terms = [Num 259200], operator = ''and''\<rparr> \<and>
   map (terms \<circ> snd) (generateFacetedFilter ''since:badvalue'' no_focus)
     = [[], [], [], [], [], [], []]"
proof (intro conjI allI impI ballI)
  fix ds u w k
  assume a: "v = ds @ u \<and> ds \<noteq> [] \<and> list_all is_digit ds \<and>
      (u = [] \<and> k = 1 \<or> same_word u w \<and> (w, k) \<in> set spec_units)"
  then have v: "v = ds @ u" and ne: "ds \<noteq> []" and dg: "list_all is_digit ds"
    and alt: "u = [] \<and> k = 1 \<or> same_word u w \<and> (w, k) \<in> set spec_units"
    by simp_all
  from v ne dg alt have "facet_step acc (''since:'' @ v)
      = acc\<lparr>since_terms := since_terms acc @ [js_number (decimal ds * k)]\<rparr>"
    by (rule since_accept_parts)
  then show "facet_step acc (''since:'' @ v)
      = acc\<lparr>since_terms := since_terms acc @
          [if decimal ds * k \<le> 2 ^ 53 then Num (decimal ds * k) else Rounded]\<rparr>"
    by (simp only: js_number_def)
next
  assume "\<forall>ds u. v = ds @ u \<and> ds \<noteq> [] \<and> list_all is_digit ds
        \<longrightarrow> u \<noteq> [] \<and> (\<forall>w k. (w, k) \<in> set spec_units \<longrightarrow> \<not> same_word u w)"
  then show "facet_step acc (''since:'' @ v) = acc"
    by (rule since_reject_parts)
next
  fix t assume "t \<in> set (tokenize s)"
  then have "CHR '':'' \<in> set t \<or> butlast t \<notin> set field_names"
    by (rule tokenize_well_split)
  then show "slice t 0 (indexOf t (CHR '':'')) = ''since'' \<longleftrightarrow> take 6 t = ''since:''"
    using prefix_is_field [of t "''since''"] by (simp add: field_names_def eval_nat_numeral)
next
  show "map_of (generateFacetedFilter ''since:3day'' no_focus) ''since''
     = Some \<lparr>terms = [Num 259200], operator = ''and''\<rparr>"
    by (rule ex_3day)
next
  show "map (terms \<circ> snd) (generateFacetedFilter ''since:badvalue'' no_focus)
     = [[], [], [], [], [], [], []]"
    by (rule ex_bad)
qed

theorem since_duration_witness:
  "facet_step (initial no_focus) ''since:3day''
     = (initial no_focus)\<lparr>since_terms := [Num 259200]\<rparr> \<and>
   facet_step (initial no_focus) ''since:badvalue'' = initial no_focus \<and>
   slice ''since:3day'' 0 (indexOf ''since:3day'' (CHR '':'')) = ''since'' \<and>
   take 6 ''since:3day'' = ''since:''"
proof -
  have day: "''3day'' = ''3'' @ ''day'' \<and> ''3'' \<noteq> [] \<and> list_all is_digit ''3'' \<and>
      (''day'' = [] \<and> (86400::nat) = 1 \<or>
       same_word ''day'' ''day'' \<and> (''day'', 86400) \<in> set spec_units)"
    by (simp add: is_digit_def spec_units_def)
  have "facet_step (initial no_focus) (''since:'' @ ''3day'')
      = (initial no_focus)\<lparr>since_terms := since_terms (initial no_focus) @
          [if decimal ''3'' * 86400 \<le> 2 ^ 53 then Num (decimal ''3'' * 86400) else Rounded]\<rparr>"
    using since_duration [of "''3day''" "initial no_focus" "''since:3day''", THEN conjunct1,
        rule_format, OF day] .
  then have one: "facet_step (initial no_focus) ''since:3day''
      = (initial no_focus)\<lparr>since_terms := [Num 259200]\<rparr>"
    by (simp add: dec_3 initial_def)
  have bad: "\<forall>ds u. ''badvalue'' = ds @ u \<and> ds \<noteq> [] \<and> list_all is_digit ds
      \<longrightarrow> u \<noteq> [] \<and> (\<forall>w k. (w, k) \<in> set spec_units \<longrightarrow> \<not> same_word u w)"
  proof (intro allI impI)
    fix ds u :: string
    assume a: "''badvalue'' = ds @ u \<and> ds \<noteq> [] \<and> list_all is_digit ds"
    then obtain c cs where ds: "ds = c # cs" by (cases ds) auto
    with a have "c = CHR ''b''" by simp
    with a ds have False by (simp add: is_digit_def)
    then show "u \<noteq> [] \<and> (\<forall>w k. (w, k) \<in> set spec_units \<longrightarrow> \<not> same_word u w)" ..
  qed
  have "facet_step (initial no_focus) (''since:'' @ ''badvalue'') = initial no_focus"
    using since_duration [of "''badvalue''" "initial no_focus" "''since:3day''",
        THEN conjunct2, THEN conjunct1, THEN mp, OF bad] .
  then have two: "facet_step (initial no_focus) ''since:badvalue'' = initial no_focus"
    by simp
  have "''since:3day'' \<in> set (tokenize ''since:3day'')" by (simp add: tok_3day)
  with since_duration [of "''3day''" "initial no_focus" "''since:3day''",
        THEN conjunct2, THEN conjunct2, THEN conjunct1]
  have three: "slice ''since:3day'' 0 (indexOf ''since:3day'' (CHR '':'')) = ''since''
      \<longleftrightarrow> take 6 ''since:3day'' = ''since:''"
    by (rule bspec)
  have four: "take 6 ''since:3day'' = ''since:''" by simp
  with three have "slice ''since:3day'' 0 (indexOf ''since:3day'' (CHR '':'')) = ''since''"
    by simp
  with one two four show ?thesis by simp
qed

lemma tok_big: "tokenize ''since:9007199254740993'' = [''since:9007199254740993'']"
  by code_simp

lemma sm_big:
  "since_match (toLowerCase ''9007199254740993'') = Some (''9007199254740993'', None)"
  by code_simp

lemma dec_big: "decimal ''9007199254740993'' = 9007199254740993"
  by (simp add: parseFloat_decimal [symmetric] parseFloat_def digit_val_def)

text \<open>
  Claim C4 as it is written takes \<^verbatim>\<open>since:3days\<close> for an example of a duration.
  The unit of the grammar is \<^verbatim>\<open>day\<close>, the expression is anchored at the end, and
  so the value \<^verbatim>\<open>3days\<close> does not match: the token is dropped. The claim also has
  the number \<open>digits \<times> multiplier\<close> appended for every value of the grammar. The value
  \<^verbatim>\<open>9007199254740993\<close> is \<open>2 ^ 53 + 1\<close>, which is no double: the term appended is
  not this number (the double next to it is \<open>2 ^ 53\<close>).
\<close>

theorem since_examples_counterexample:
  "map_of (generateFacetedFilter ''since:3days'' no_focus) ''since''
     = Some \<lparr>terms = [], operator = ''and''\<rparr> \<and>
   map_of (generateFacetedFilter ''since:9007199254740993'' no_focus) ''since''
     = Some \<lparr>terms = [Rounded], operator = ''and''\<rparr>"
proof -
  have "facet_step (initial no_focus) (''since:'' @ ''3days'') = initial no_focus"
    by (simp only: facet_step_since push_since_value sm_3days option.case)
  then have one: "map_of (generateFacetedFilter ''since:3days'' no_focus) ''since''
     = Some \<lparr>terms = [], operator = ''and''\<rparr>"
    by (simp add: generateFacetedFilter_def tok_3days initial_def no_focus_def)
  have "facet_step (initial no_focus) (''since:'' @ ''9007199254740993'') =
      (initial no_focus)\<lparr>since_terms := since_terms (initial no_focus) @
        [js_number (decimal ''9007199254740993'' * 1)]\<rparr>"
    by (simp only: facet_step_since push_since_value sm_big option.case prod.case)
      (simp add: spec_units_def)
  then have two: "map_of (generateFacetedFilter ''since:9007199254740993'' no_focus) ''since''
     = Some \<lparr>terms = [Rounded], operator = ''and''\<rparr>"
    by (simp add: generateFacetedFilter_def tok_big initial_def no_focus_def dec_big js_number_def)
  from one two show ?thesis by simp
qed

section \<open>The loop of generateFacetedFilter\<close>

text \<open>For a token of \<^verbatim>\<open>tokenize\<close> the switch can be read off the start of the token.\<close>

lemma facet_step_cases:
  assumes ws: "CHR '':'' \<in> set t \<or> butlast t \<notin> set field_names"
  shows "facet_step acc t =
     (if take 6 t = ''quote:'' then acc\<lparr>quote_terms := quote_terms acc @ [Str (drop 6 t)]\<rparr>
      else if take 6 t = ''since:'' then push_since acc t
      else if take 4 t = ''tag:'' then acc\<lparr>tag_terms := tag_terms acc @ [Str (drop 4 t)]\<rparr>
      else if take 5 t = ''text:'' then acc\<lparr>text_terms := text_terms acc @ [Str (drop 5 t)]\<rparr>
      else if take 4 t = ''uri:'' then acc\<lparr>uri_terms := uri_terms acc @ [Str (drop 4 t)]\<rparr>
      else if take 5 t = ''user:'' then acc\<lparr>user_terms := user_terms acc @ [Str (drop 5 t)]\<rparr>
      else acc\<lparr>any_terms := any_terms acc @ [Str t]\<rparr>)"
proof -
  define p where "p = slice t 0 (indexOf t (CHR '':''))"
  have q1: "p = ''quote'' \<longleftrightarrow> take 6 t = ''quote:''"
    using prefix_is_field [OF ws, of "''quote''"]
    by (simp add: field_names_def p_def eval_nat_numeral)
  have q2: "p = ''since'' \<longleftrightarrow> take 6 t = ''since:''"
    using prefix_is_field [OF ws, of "''since''"]
    by (simp add: field_names_def p_def eval_nat_numeral)
  have q3: "p = ''tag'' \<longleftrightarrow> take 4 t = ''tag:''"
    using prefix_is_field [OF ws, of "''tag''"]
    by (simp add: field_names_def p_def eval_nat_numeral)
  have q4: "p = ''text'' \<longleftrightarrow> take 5 t = ''text:''"
    using prefix_is_field [OF ws, of "''text''"]
    by (simp add: field_names_def p_def eval_nat_numeral)
  have q5: "p = ''uri'' \<longleftrightarrow> take 4 t = ''uri:''"
    using prefix_is_field [OF ws, of "''uri''"]
    by (simp add: field_names_def p_def eval_nat_numeral)
  have q6: "p = ''user'' \<longleftrightarrow> take 5 t = ''user:''"
    using prefix_is_field [OF ws, of "''user''"]
    by (simp add: field_names_def p_def eval_nat_numeral)
  have d4: "slice_from t 4 = drop 4 t" using slice_from_nat [of t 4] by simp
  have d5: "slice_from t 5 = drop 5 t" using slice_from_nat [of t 5] by simp
  have d6: "slice_from t 6 = drop 6 t" using slice_from_nat [of t 6] by simp
  have "facet_step acc t =
     (if p = ''quote'' then acc\<lparr>quote_terms := quote_terms acc @ [Str (slice_from t 6)]\<rparr>
      else if p = ''since'' then push_since acc t
      else if p = ''tag'' then acc\<lparr>tag_terms := tag_terms acc @ [Str (slice_from t 4)]\<rparr>
      else if p = ''text'' then acc\<lparr>text_terms := text_terms acc @ [Str (slice_from t 5)]\<rparr>
      else if p = ''uri'' then acc\<lparr>uri_terms := uri_terms acc @ [Str (slice_from t 4)]\<rparr>
      else if p = ''user'' then acc\<lparr>user_terms := user_terms acc @ [Str (slice_from t 5)]\<rparr>
      else acc\<lparr>any_terms := any_terms acc @ [Str t]\<rparr>)"
    by (simp add: facet_step_def Let_def p_def [symmetric])
  then show ?thesis
    by (simp only: q1 q2 q3 q4 q5 q6 d4 d5 d6)
qed




lemma spec_facet_since: "spec_facet t = 2 \<longleftrightarrow> take 6 t = ''since:''"
  by (auto simp: spec_facet_def)





section \<open>The loop of toObject\<close>

lemma toObject_step_push: "toObject_step obj t = push_value obj (spec_key t) (spec_value t)"
proof (cases "splitTerm t")
  case (Pair a d)
  show ?thesis
  proof (cases a)
    case None
    with Pair show ?thesis
      by (simp add: toObject_step_def spec_key_def spec_value_def backendFilter_def)
  next
    case (Some f)
    with Pair have "f \<in> set field_names" using splitTerm_Some [of t f d] by simp
    then have "f \<noteq> []" using empty_not_field by auto
    with Pair Some show ?thesis
      by (simp add: toObject_step_def spec_key_def spec_value_def backendFilter_def)
  qed
qed




lemma push_value_keys:
  "map fst (push_value obj k d) = (if k \<in> fst ` set obj then map fst obj else map fst obj @ [k])"
proof (cases "map_of obj k")
  case None
  then have "k \<notin> fst ` set obj" by (simp add: map_of_eq_None_iff)
  with None show ?thesis by (simp add: push_value_def)
next
  case (Some vs)
  then have "k \<in> fst ` set obj" by (metis map_of_eq_None_iff option.distinct(1))
  moreover have "map fst (map (\<lambda>(k', ws). if k' = k then (k', ws @ [d]) else (k', ws)) obj) = map fst obj"
    by (induction obj) auto
  ultimately show ?thesis using Some by (simp add: push_value_def)
qed


lemma push_value_map_of:
  "map_of (push_value obj k d) k' =
     (if k' = k then Some (case map_of obj k of None \<Rightarrow> [d] | Some vs \<Rightarrow> vs @ [d])
      else map_of obj k')"
proof (cases "map_of obj k")
  case None
  then show ?thesis by (auto simp: push_value_def map_add_def split: option.split)
next
  case (Some vs)
  have "map_of (map (\<lambda>(k', ws). if k' = k then (k', ws @ [d]) else (k', ws)) obj) k' =
     (if k' = k then map_option (\<lambda>ws. ws @ [d]) (map_of obj k) else map_of obj k')"
    by (induction obj) auto
  with Some show ?thesis by (simp add: push_value_def)
qed


section \<open>Every token is counted once\<close>

lemma push_since_frame:
  "any_terms (push_since acc t) = any_terms acc"
  "user_terms (push_since acc t) = user_terms acc"
  by (simp_all add: push_since_def Let_def split: option.split prod.split)

lemma facet_step_user:
  assumes ws: "CHR '':'' \<in> set t \<or> butlast t \<notin> set field_names"
  shows "user_terms (facet_step acc t) =
     user_terms acc @ (if take 5 t = ''user:'' then [Str (drop 5 t)] else [])"
proof -
  have "user_terms (facet_step acc t) =
     user_terms acc @ (if slice t 0 (indexOf t (CHR '':'')) = ''user'' then [Str (slice_from t 5)] else [])"
    by (simp add: facet_step_def Let_def push_since_frame)
  moreover have "slice t 0 (indexOf t (CHR '':'')) = ''user'' \<longleftrightarrow> take 5 t = ''user:''"
    using prefix_is_field [OF ws, of "''user''"] by (simp add: field_names_def eval_nat_numeral)
  moreover have "slice_from t 5 = drop 5 t" using slice_from_nat [of t 5] by simp
  ultimately show ?thesis by simp
qed

lemma fold_user:
  "(\<And>t. t \<in> set ts \<Longrightarrow> CHR '':'' \<in> set t \<or> butlast t \<notin> set field_names) \<Longrightarrow>
   user_terms (foldl facet_step acc ts) =
     user_terms acc @ map (Str \<circ> drop 5) (filter (\<lambda>t. take 5 t = ''user:'') ts)"
proof (induction ts arbitrary: acc)
  case Nil
  then show ?case by simp
next
  case (Cons t ts)
  have "user_terms (foldl facet_step (facet_step acc t) ts) =
     user_terms (facet_step acc t) @ map (Str \<circ> drop 5) (filter (\<lambda>t. take 5 t = ''user:'') ts)"
    by (rule Cons.IH) (simp add: Cons.prems)
  moreover have "user_terms (facet_step acc t) =
     user_terms acc @ (if take 5 t = ''user:'' then [Str (drop 5 t)] else [])"
    by (rule facet_step_user) (simp add: Cons.prems)
  ultimately show ?case by simp
qed






text \<open>The key and the value of the flat form can be read off a token of
  \<^verbatim>\<open>tokenize\<close> as well.\<close>

lemma spec_key_field:
  "f \<in> set field_names \<Longrightarrow> spec_key (f @ '':'' @ v) = (if f = ''tag'' then ''tags'' else f)"
  by (simp add: spec_key_def splitTerm_field)

lemma spec_value_field:
  "f \<in> set field_names \<Longrightarrow> spec_value (f @ '':'' @ v) = v"
  by (simp add: spec_value_def splitTerm_field)








section \<open>The shape of the result and the focus filter\<close>

text \<open>
  Claim C6. For every input and every focus filter the result has the seven keys
  \<^verbatim>\<open>any, quote, since, tag, text, uri, user\<close>, in this order and no other, with the
  operators \<^verbatim>\<open>and, and, and, and, and, or, or\<close>; for the empty input all seven lists
  of terms are empty.
\<close>

theorem seven_facets:
  "map fst (generateFacetedFilter s focus)
     = [''any'', ''quote'', ''since'', ''tag'', ''text'', ''uri'', ''user''] \<and>
   map (operator \<circ> snd) (generateFacetedFilter s focus)
     = [''and'', ''and'', ''and'', ''and'', ''and'', ''or'', ''or''] \<and>
   map (terms \<circ> snd) (generateFacetedFilter [] no_focus) = [[], [], [], [], [], [], []]"
proof -
  have "tokenize [] = []" by (simp add: tokenize_eq)
  then show ?thesis
    by (simp add: generateFacetedFilter_def Let_def initial_def no_focus_def)
qed

lemma user_facet:
  "map_of (generateFacetedFilter s focus) ''user'' =
     Some \<lparr>terms = user_terms (initial focus) @
               map (Str \<circ> drop 5) (filter (\<lambda>t. take 5 t = ''user:'') (tokenize s)),
           operator = ''or''\<rparr>"
proof -
  have "user_terms (foldl facet_step (initial focus) (tokenize s)) =
     user_terms (initial focus) @ map (Str \<circ> drop 5) (filter (\<lambda>t. take 5 t = ''user:'') (tokenize s))"
    by (rule fold_user) (rule tokenize_well_split)
  then show ?thesis by (simp add: generateFacetedFilter_def Let_def)
qed

text \<open>
  Claim C10. A focus filter whose user is the empty string gives the result of a focus
  filter with no user, which is the result of a call with no focus filter: the terms of
  \<^verbatim>\<open>user\<close> are the values of the \<^verbatim>\<open>user:\<close> tokens of the query, in their order.
\<close>

theorem empty_focus_user:
  "generateFacetedFilter s \<lparr>user = Some []\<rparr> = generateFacetedFilter s \<lparr>user = None\<rparr> \<and>
   generateFacetedFilter s \<lparr>user = Some []\<rparr> = generateFacetedFilter s no_focus \<and>
   map_of (generateFacetedFilter s \<lparr>user = Some []\<rparr>) ''user'' =
     Some \<lparr>terms = map (Str \<circ> drop 5) (filter (\<lambda>t. take 5 t = ''user:'') (tokenize s)),
           operator = ''or''\<rparr>"
proof -
  have "initial \<lparr>user = Some []\<rparr> = initial \<lparr>user = None\<rparr>" by (simp add: initial_def)
  then have "generateFacetedFilter s \<lparr>user = Some []\<rparr> = generateFacetedFilter s \<lparr>user = None\<rparr>"
    by (simp add: generateFacetedFilter_def)
  moreover have "user_terms (initial \<lparr>user = Some []\<rparr>) = []" by (simp add: initial_def)
  ultimately show ?thesis by (simp add: user_facet no_focus_def initial_def)
qed

lemma tok_foo_bar: "tokenize ''foo bar'' = [''foo'', ''bar'']" by code_simp
lemma tok_user_bob: "tokenize ''user:bob'' = [''user:bob'']" by code_simp

lemma step_foo: "facet_step acc ''foo'' = acc\<lparr>any_terms := any_terms acc @ [Str ''foo'']\<rparr>"
  by (subst facet_step_cases) (simp_all add: field_names_def)

lemma step_bar: "facet_step acc ''bar'' = acc\<lparr>any_terms := any_terms acc @ [Str ''bar'']\<rparr>"
  by (subst facet_step_cases) (simp_all add: field_names_def)

text \<open>
  Claim C8, amended: a focus filter with a non-empty user \<open>u\<close> puts \<open>u\<close> first in the
  terms of \<^verbatim>\<open>user\<close>, before the values of the \<^verbatim>\<open>user:\<close> tokens of the query.
  For the query \<^verbatim>\<open>foo bar\<close> and the user \<^verbatim>\<open>alice\<close>, the terms of \<^verbatim>\<open>user\<close> are
  \<^verbatim>\<open>['alice']\<close> and the terms of \<^verbatim>\<open>any\<close> are \<^verbatim>\<open>['foo', 'bar']\<close>.
\<close>

theorem focus_user_first:
  "(u \<noteq> [] \<longrightarrow>
      map_of (generateFacetedFilter s \<lparr>user = Some u\<rparr>) ''user'' =
        Some \<lparr>terms = Str u # map (Str \<circ> drop 5) (filter (\<lambda>t. take 5 t = ''user:'') (tokenize s)),
              operator = ''or''\<rparr>) \<and>
   map_of (generateFacetedFilter ''foo bar'' \<lparr>user = Some ''alice''\<rparr>) ''user'' =
     Some \<lparr>terms = [Str ''alice''], operator = ''or''\<rparr> \<and>
   map_of (generateFacetedFilter ''foo bar'' \<lparr>user = Some ''alice''\<rparr>) ''any'' =
     Some \<lparr>terms = [Str ''foo'', Str ''bar''], operator = ''and''\<rparr>"
proof (intro conjI impI)
  assume "u \<noteq> []"
  then have "user_terms (initial \<lparr>user = Some u\<rparr>) = [Str u]" by (simp add: initial_def)
  then show "map_of (generateFacetedFilter s \<lparr>user = Some u\<rparr>) ''user'' =
        Some \<lparr>terms = Str u # map (Str \<circ> drop 5) (filter (\<lambda>t. take 5 t = ''user:'') (tokenize s)),
              operator = ''or''\<rparr>"
    by (simp add: user_facet)
next
  show "map_of (generateFacetedFilter ''foo bar'' \<lparr>user = Some ''alice''\<rparr>) ''user'' =
     Some \<lparr>terms = [Str ''alice''], operator = ''or''\<rparr>"
    by (simp add: user_facet tok_foo_bar initial_def)
next
  show "map_of (generateFacetedFilter ''foo bar'' \<lparr>user = Some ''alice''\<rparr>) ''any'' =
     Some \<lparr>terms = [Str ''foo'', Str ''bar''], operator = ''and''\<rparr>"
    by (simp add: generateFacetedFilter_def Let_def tok_foo_bar step_foo step_bar initial_def)
qed

theorem focus_user_first_witness:
  "map_of (generateFacetedFilter ''user:bob'' \<lparr>user = Some ''alice''\<rparr>) ''user'' =
     Some \<lparr>terms = [Str ''alice'', Str ''bob''], operator = ''or''\<rparr>"
  using focus_user_first [of "''alice''" "''user:bob''", THEN conjunct1]
  by (simp add: tok_user_bob)

text \<open>
  Claim C8 as it is written speaks of every focus filter that provides a user. The empty
  string is a user that the test \<^verbatim>\<open>focusFilters.user ? ... : []\<close> does not count, so
  it is not placed before the \<^verbatim>\<open>user:\<close> terms of the query.
\<close>

theorem focus_empty_user_counterexample:
  "map_of (generateFacetedFilter ''user:bob'' \<lparr>user = Some []\<rparr>) ''user'' =
     Some \<lparr>terms = [Str ''bob''], operator = ''or''\<rparr>"
  by (simp add: user_facet tok_user_bob initial_def)

section \<open>The flat form\<close>

lemma first_occurrences_set:
  "set seen = set seen' \<Longrightarrow> first_occurrences seen xs = first_occurrences seen' xs"
proof (induction xs arbitrary: seen seen')
  case Nil
  then show ?case by simp
next
  case (Cons x xs)
  from Cons.prems have "set (x # seen) = set (x # seen')" by simp
  from Cons.IH [OF this] Cons.IH [OF Cons.prems] Cons.prems show ?case by simp
qed

lemma fold_keys:
  "map fst (foldl toObject_step obj ts) =
     map fst obj @ first_occurrences (map fst obj) (map spec_key ts)"
proof (induction ts arbitrary: obj)
  case Nil
  then show ?case by simp
next
  case (Cons t ts)
  let ?k = "spec_key t"
  let ?obj = "push_value obj ?k (spec_value t)"
  have IH: "map fst (foldl toObject_step ?obj ts) =
     map fst ?obj @ first_occurrences (map fst ?obj) (map spec_key ts)"
    by (rule Cons.IH)
  show ?case
  proof (cases "?k \<in> fst ` set obj")
    case True
    then have "map fst ?obj = map fst obj" by (simp add: push_value_keys)
    with IH True show ?thesis by (simp add: toObject_step_push [of obj t])
  next
    case False
    then have k: "map fst ?obj = map fst obj @ [?k]" by (simp add: push_value_keys)
    have "first_occurrences (map fst obj @ [?k]) (map spec_key ts)
        = first_occurrences (?k # map fst obj) (map spec_key ts)"
      by (rule first_occurrences_set) auto
    with IH k False show ?thesis by (simp add: toObject_step_push [of obj t])
  qed
qed

lemma fold_map_of:
  "map_of (foldl toObject_step obj ts) k =
     (case map_of obj k of
        None \<Rightarrow> (case map spec_value (filter (\<lambda>t. spec_key t = k) ts) of
                   [] \<Rightarrow> None | v # vs \<Rightarrow> Some (v # vs))
      | Some ws \<Rightarrow> Some (ws @ map spec_value (filter (\<lambda>t. spec_key t = k) ts)))"
proof (induction ts arbitrary: obj)
  case Nil
  then show ?case by (simp split: option.split)
next
  case (Cons t ts)
  show ?case
    by (simp add: toObject_step_push [of obj t] Cons.IH push_value_map_of
        split: option.split list.split)
qed

lemma spec_key_not_tag: "spec_key t \<noteq> ''tag''"
proof (cases "splitTerm t")
  case (Pair a d)
  then show ?thesis by (cases a) (auto simp: spec_key_def)
qed

lemma tok_tag_x_y: "tokenize ''tag:x tag:y'' = [''tag:x'', ''tag:y'']" by code_simp

lemma toObject_tag_x_y: "toObject ''tag:x tag:y'' = [(''tags'', [''x'', ''y''])]"
proof -
  have x: "spec_key ''tag:x'' = ''tags''" "spec_value ''tag:x'' = ''x''"
    using spec_key_field [of "''tag''" "''x''"] spec_value_field [of "''tag''" "''x''"]
    by (simp_all add: field_names_def)
  have y: "spec_key ''tag:y'' = ''tags''" "spec_value ''tag:y'' = ''y''"
    using spec_key_field [of "''tag''" "''y''"] spec_value_field [of "''tag''" "''y''"]
    by (simp_all add: field_names_def)
  show ?thesis
    by (simp add: toObject_def tok_tag_x_y toObject_step_push [of _ "''tag:x''"]
        toObject_step_push [of _ "''tag:y''"] x y push_value_def)
qed

text \<open>
  Claim C9. Under a key \<open>k\<close> the flat form holds the values of the tokens whose key is
  \<open>k\<close>, in the order of the tokens, and a key with no token is absent; the keys stand in
  the order of their first occurrence. A token \<^verbatim>\<open>f:v\<close> with a recognised field
  \<open>f\<close> has the value \<open>v\<close> and the key \<open>f\<close>, except that the field \<^verbatim>\<open>tag\<close> has
  the key \<^verbatim>\<open>tags\<close>; \<^verbatim>\<open>tag\<close> itself is never a key. The query
  \<^verbatim>\<open>tag:x tag:y\<close> gives \<^verbatim>\<open>{ tags: ['x', 'y'] }\<close>.
\<close>

theorem toObject_groups:
  "(\<forall>k. map_of (toObject s) k =
        (case map spec_value (filter (\<lambda>t. spec_key t = k) (tokenize s)) of
           [] \<Rightarrow> None | v # vs \<Rightarrow> Some (v # vs))) \<and>
   map fst (toObject s) = first_occurrences [] (map spec_key (tokenize s)) \<and>
   (\<forall>f v. f \<in> set field_names \<longrightarrow>
      spec_key (f @ '':'' @ v) = (if f = ''tag'' then ''tags'' else f) \<and>
      spec_value (f @ '':'' @ v) = v) \<and>
   ''tag'' \<notin> fst ` set (toObject s) \<and>
   toObject ''tag:x tag:y'' = [(''tags'', [''x'', ''y''])]"
proof (intro conjI allI impI)
  fix k
  show "map_of (toObject s) k =
        (case map spec_value (filter (\<lambda>t. spec_key t = k) (tokenize s)) of
           [] \<Rightarrow> None | v # vs \<Rightarrow> Some (v # vs))"
    by (simp add: toObject_def fold_map_of)
next
  show keys: "map fst (toObject s) = first_occurrences [] (map spec_key (tokenize s))"
    by (simp add: toObject_def fold_keys)
next
  fix f v assume "f \<in> set field_names"
  then show "spec_key (f @ '':'' @ v) = (if f = ''tag'' then ''tags'' else f)"
    by (rule spec_key_field)
next
  fix f v assume "f \<in> set field_names"
  then show "spec_value (f @ '':'' @ v) = v"
    by (rule spec_value_field)
next
  have "map_of (toObject s) ''tag'' = None"
    by (simp add: toObject_def fold_map_of spec_key_not_tag)
  then show "''tag'' \<notin> fst ` set (toObject s)"
    by (simp add: map_of_eq_None_iff)
next
  show "toObject ''tag:x tag:y'' = [(''tags'', [''x'', ''y''])]"
    by (rule toObject_tag_x_y)
qed

theorem toObject_groups_witness:
  "spec_key ''tag:x'' = ''tags'' \<and> spec_value ''tag:x'' = ''x'' \<and>
   spec_key ''user:bob'' = ''user'' \<and> spec_value ''user:bob'' = ''bob''"
proof -
  have t: "''tag'' \<in> set field_names" and u: "''user'' \<in> set field_names"
    by (simp_all add: field_names_def)
  from toObject_groups [of "[]", THEN conjunct2, THEN conjunct2, THEN conjunct1,
      THEN spec, of "''tag''", THEN spec, of "''x''", THEN mp, OF t]
    toObject_groups [of "[]", THEN conjunct2, THEN conjunct2, THEN conjunct1,
      THEN spec, of "''user''", THEN spec, of "''bob''", THEN mp, OF u]
  show ?thesis by simp
qed

section \<open>Queries with no colon\<close>

lemma match_all_chars: "r \<in> set (match_all s) \<Longrightarrow> set r \<subseteq> set s"
proof (induction s arbitrary: r rule: match_all.induct)
  case 1
  then show ?case by simp
next
  case (2 c cs)
  show ?case
  proof (cases "token_at (c # cs)")
    case None
    with "2.prems" have "r \<in> set (match_all cs)" by simp
    with "2.IH"(1) [OF None] show ?thesis by auto
  next
    case (Some a)
    obtain m rest where a: "a = (m, rest)" by (cases a)
    with Some have sp: "c # cs = m @ rest" using token_at_splits [of "c # cs" m rest] by simp
    from "2.prems" Some a have "r = m \<or> r \<in> set (match_all rest)" by simp
    then show ?thesis
    proof
      assume "r = m"
      with sp show ?thesis by (metis set_append sup_ge1)
    next
      assume "r \<in> set (match_all rest)"
      with "2.IH"(2) [OF Some a [symmetric]] have "set r \<subseteq> set rest" by simp
      with sp show ?thesis by (metis set_append sup.coboundedI2)
    qed
  qed
qed

lemma removeSurroundingQuotes_spec:
  "removeSurroundingQuotes r =
     (if r \<noteq> [] \<and> (hd r = dq \<or> hd r = sq) \<and> last r = hd r then butlast (tl r) else r)"
proof (cases r)
  case Nil
  then show ?thesis by (simp add: removeSurroundingQuotes_def slice_def slice_from_def clamp_index_def)
next
  case (Cons a as)
  have s: "slice r 0 1 = [a]" using Cons slice_0_nonneg [of 1 r] by simp
  have f: "slice_from r (- 1) = [last r]" using Cons by (simp add: slice_from_minus_1)
  show ?thesis
    unfolding removeSurroundingQuotes_def Let_def s f slice_1_len
    using Cons by auto
qed

lemma removeSurroundingQuotes_chars: "set (removeSurroundingQuotes r) \<subseteq> set r"
proof -
  have "set (butlast (tl r)) \<subseteq> set r"
  proof
    fix x assume "x \<in> set (butlast (tl r))"
    then have "x \<in> set (tl r)" by (rule in_set_butlastD)
    then show "x \<in> set r" by (cases r) auto
  qed
  then show ?thesis by (simp add: removeSurroundingQuotes_spec)
qed

lemma removeSurroundingQuotes_Nil: "removeSurroundingQuotes [] = []"
  by (simp add: removeSurroundingQuotes_spec)

lemma tokens_any:
  assumes nc: "CHR '':'' \<notin> set s" and t: "t \<in> set (tokenize s)"
    and nf: "butlast t \<notin> set field_names"
  shows "splitTerm t = (None, t)"
proof -
  from t obtain r where r: "r \<in> set (match_all s)"
    and t': "t = stripFieldValue (removeSurroundingQuotes r)"
    by (auto simp: tokenize_eq)
  let ?r = "removeSurroundingQuotes r"
  from r nc have ncr: "CHR '':'' \<notin> set ?r"
    using match_all_chars [of r s] removeSurroundingQuotes_chars [of r] by blast
  show ?thesis
  proof (cases "butlast ?r \<in> set field_names")
    case True
    with ncr have "splitTerm ?r = (Some (butlast ?r), [])" by (simp add: splitTerm_no_colon)
    then have "t = butlast ?r @ '':''"
      using t' by (simp add: stripFieldValue_Some removeSurroundingQuotes_Nil)
    with True nf show ?thesis by simp
  next
    case False
    with ncr have n: "splitTerm ?r = (None, ?r)" by (simp add: splitTerm_no_colon)
    with t' have "t = ?r" by (simp add: stripFieldValue_None)
    with n show ?thesis by simp
  qed
qed

lemma fold_any:
  "(\<And>t. t \<in> set ts \<Longrightarrow> splitTerm t = (None, t)) \<Longrightarrow>
   foldl toObject_step [(''any'', vs)] ts = [(''any'', vs @ ts)]"
proof (induction ts arbitrary: vs)
  case Nil
  then show ?case by simp
next
  case (Cons t ts)
  have "splitTerm t = (None, t)" by (rule Cons.prems) simp
  then have "toObject_step [(''any'', vs)] t = [(''any'', vs @ [t])]"
    by (simp add: toObject_step_def backendFilter_def push_value_def)
  moreover have "foldl toObject_step [(''any'', vs @ [t])] ts = [(''any'', (vs @ [t]) @ ts)]"
    by (rule Cons.IH) (simp add: Cons.prems)
  ultimately show ?case by simp
qed

text \<open>
  Claim C2, amended. For an input with no colon that has at least one token, and none of
  whose tokens is a recognised field name followed by one more character, the flat form
  has the one key \<^verbatim>\<open>any\<close> with the list of the tokens in their order.
\<close>

theorem toObject_no_colon:
  assumes "CHR '':'' \<notin> set s" and "tokenize s \<noteq> []"
    and "\<forall>t \<in> set (tokenize s). butlast t \<notin> set field_names"
  shows "toObject s = [(''any'', tokenize s)]"
proof -
  from assms(2) obtain t ts where ts: "tokenize s = t # ts" by (cases "tokenize s") auto
  have any: "\<And>x. x \<in> set (t # ts) \<Longrightarrow> splitTerm x = (None, x)"
    using assms(1,3) ts tokens_any [of s] by auto
  then have "splitTerm t = (None, t)" by simp
  then have "toObject_step [] t = [(''any'', [t])]"
    by (simp add: toObject_step_def backendFilter_def push_value_def)
  moreover have "foldl toObject_step [(''any'', [t])] ts = [(''any'', [t] @ ts)]"
    by (rule fold_any) (simp add: any)
  ultimately show ?thesis by (simp add: toObject_def ts)
qed

theorem toObject_no_colon_witness:
  "toObject ''foo bar'' = [(''any'', [''foo'', ''bar''])]"
  using toObject_no_colon [of "''foo bar''"]
  by (simp add: tok_foo_bar field_names_def)

text \<open>
  Claim C2 as it is written covers the inputs with no token: the empty string has no
  colon, and its flat form is the empty object, with no key \<^verbatim>\<open>any\<close>.
\<close>

theorem toObject_empty_counterexample:
  "toObject [] = [] \<and> toObject [] \<noteq> [(''any'', tokenize [])]"
proof -
  have "tokenize [] = []" by (simp add: tokenize_eq)
  then show ?thesis by (simp add: toObject_def)
qed

section \<open>Splitting on whitespace and quoted spans\<close>

lemma space_not_quote: "is_space c \<Longrightarrow> c \<noteq> dq \<and> c \<noteq> sq"
  by (auto simp: is_space_def)

lemma space_not_bare: "is_space c \<Longrightarrow> \<not> bare c"
  by (simp add: bare_def)

lemma piece_space: "is_space c \<Longrightarrow> piece (c # cs) = None"
  by (simp add: piece_def space_not_bare space_not_quote)

lemma piece_Nil: "piece [] = None"
  by (simp add: piece_def)

lemma pieces_stop: "r = [] \<or> is_space (hd r) \<Longrightarrow> pieces r = ([], r)"
  by (cases r) (auto simp: pieces_None piece_Nil piece_space)


lemma match_all_Nil: "match_all [] = []"
  by simp



lemma match_all_bare:
  assumes "bare c"
    and "dropWhile bare cs = [] \<or> is_space (hd (dropWhile bare cs))"
  shows "match_all (c # cs) = (c # takeWhile bare cs) # match_all (dropWhile bare cs)"
proof -
  from assms(1) have "piece (c # cs) = Some (c # takeWhile bare cs, dropWhile bare cs)"
    by (simp add: piece_def)
  then have "token_at (c # cs) = Some ((c # takeWhile bare cs) @ fst (pieces (dropWhile bare cs)),
      snd (pieces (dropWhile bare cs)))"
    by (rule token_at_Some)
  with pieces_stop [OF assms(2)] have "token_at (c # cs) = Some (c # takeWhile bare cs, dropWhile bare cs)"
    by simp
  then show ?thesis by simp
qed

declare match_all.simps [simp del]








































section \<open>Tokens with no colon\<close>

text \<open>A token of unquoted characters with neither whitespace nor colon comes back as it
  is, unless it is a recognised field name followed by one more character.\<close>

lemma tokenize_bare:
  assumes "t \<noteq> []" and "\<And>c. c \<in> set t \<Longrightarrow> bare c \<and> c \<noteq> CHR '':''"
    and "butlast t \<notin> set field_names"
  shows "tokenize t = [t]"
proof -
  from assms(1) obtain c cs where t: "t = c # cs" by (cases t) auto
  with assms(2) have bc: "bare c" and all: "\<And>x. x \<in> set cs \<Longrightarrow> bare x" by simp_all
  from all have tw: "takeWhile bare cs = cs" by (simp add: takeWhile_eq_all_conv)
  from all have dw: "dropWhile bare cs = []" by simp
  have "match_all (c # cs) = (c # takeWhile bare cs) # match_all (dropWhile bare cs)"
    using bc by (rule match_all_bare) (simp add: dw)
  then have m: "match_all t = [t]" unfolding tw dw t match_all_Nil .
  from bc have "c \<noteq> dq" and "c \<noteq> sq" by (simp_all add: bare_def)
  with t have r: "removeSurroundingQuotes t = t"
    by (simp add: removeSurroundingQuotes_spec)
  from assms(2) have "CHR '':'' \<notin> set t" by blast
  with assms(3) have "splitTerm t = (None, t)" by (simp add: splitTerm_no_colon)
  then have s: "stripFieldValue t = t" by (rule stripFieldValue_None)
  show ?thesis unfolding tokenize_eq m using r s assms(1) by simp
qed

text \<open>The two examples in the comment of \<^verbatim>\<open>splitTerm\<close>.\<close>

lemma splitTerm_examples:
  "splitTerm ''user:johndoe'' = (Some ''user'', ''johndoe'')"
  "splitTerm ''example:text'' = (None, ''example:text'')"
  by (simp_all add: splitTerm_colon field_names_def)

text \<open>
  Claim C1 says that a token with no colon comes back whole, with no field. The prefix
  is cut with \<^verbatim>\<open>term.slice(0, term.indexOf(':'))\<close>; with no colon the index is -1
  and the prefix is the token without its last character. For the token \<^verbatim>\<open>tags\<close>
  that prefix is the field name \<^verbatim>\<open>tag\<close>, and the value is empty.
\<close>

theorem splitTerm_tags:
  "splitTerm ''tags'' = (Some ''tag'', [])"
  by (simp add: splitTerm_no_colon field_names_def)

text \<open>
  Claim C7 says that a token with no quote, colon or whitespace comes back from
  \<^verbatim>\<open>tokenize\<close> as it is. The last step of \<^verbatim>\<open>tokenize\<close> calls
  \<^verbatim>\<open>splitTerm\<close>, so the token \<^verbatim>\<open>tags\<close> comes back as \<^verbatim>\<open>tag:\<close>.
\<close>

theorem tokenize_tags:
  "tokenize ''tags'' = [''tag:'']"
  by code_simp

end
